theory Spec2Isabelle
  imports Main
begin

section \<open>Strings\<close>

text \<open>
  Python strings are modelled as \<^typ>\<open>string\<close>, a character standing for a code point
  from 0 to 255. Among these the whitespace of \<^verbatim>\<open>str.strip()\<close> and of the pattern
  \<^verbatim>\<open>\S\<close> is 9 to 13, 28 to 32, 133 and 160, and \<^verbatim>\<open>str.lower()\<close> adds 32 to the
  capital letters: 65 to 90, and 192 to 222 without the multiplication sign 215.
\<close>

definition is_space :: "char \<Rightarrow> bool" where
  "is_space c =
     (let n = (of_char c :: nat)
      in (9 \<le> n \<and> n \<le> 13) \<or> (28 \<le> n \<and> n \<le> 32) \<or> n = 133 \<or> n = 160)"

definition strip :: "string \<Rightarrow> string" where
  "strip s = rev (dropWhile is_space (rev (dropWhile is_space s)))"

definition is_upper :: "char \<Rightarrow> bool" where
  "is_upper c =
     (let n = (of_char c :: nat)
      in (65 \<le> n \<and> n \<le> 90) \<or> (192 \<le> n \<and> n \<le> 214) \<or> (216 \<le> n \<and> n \<le> 222))"

definition lower_char :: "char \<Rightarrow> char" where
  "lower_char c = (if is_upper c then char_of ((of_char c :: nat) + 32) else c)"

definition lower :: "string \<Rightarrow> string" where
  "lower s = map lower_char s"

text \<open>\<^verbatim>\<open>needle in haystack\<close> on strings: the needle occurs as a contiguous substring.\<close>

fun py_in :: "string \<Rightarrow> string \<Rightarrow> bool" where
  "py_in k [] = (k = [])"
| "py_in k (c # cs) = (take (length k) (c # cs) = k \<or> py_in k cs)"

text \<open>\<^verbatim>\<open>separator.join(parts)\<close>.\<close>

fun join :: "string \<Rightarrow> string list \<Rightarrow> string" where
  "join sep [] = []"
| "join sep [x] = x"
| "join sep (x # y # ys) = x @ sep @ join sep (y # ys)"

text \<open>
  \<^verbatim>\<open>re.findall(r"\S+", value)\<close>: the maximal runs of non-whitespace characters. The
  tree builder splits the value of a multi-valued attribute with it.
\<close>

function split_ws :: "string \<Rightarrow> string list" where
  "split_ws s =
     (case dropWhile is_space s of
        [] \<Rightarrow> []
      | c # cs \<Rightarrow> (c # takeWhile (\<lambda>x. \<not> is_space x) cs) # split_ws (dropWhile (\<lambda>x. \<not> is_space x) cs))"
  by pat_completeness auto
termination
proof (relation "measure length", goal_cases)
  case 1
  show ?case by simp
next
  case (2 s c cs)
  have "length (dropWhile (\<lambda>x. \<not> is_space x) cs) \<le> length cs"
    by (rule length_dropWhile_le)
  moreover have "length (dropWhile is_space s) \<le> length s"
    by (rule length_dropWhile_le)
  ultimately show ?case using 2 by simp
qed

declare split_ws.simps [simp del]

section \<open>The document tree\<close>

text \<open>
  The HTML parser is an external collaborator; the program works on the tree it builds.
  A page element is a string of some string class, or a tag with a name, its attribute
  dictionary (one entry per attribute name, with the raw value of the markup) and the
  children in document order.
\<close>

datatype string_type =
    NavigableString | CData | Comment | Doctype | Declaration | ProcessingInstruction
  | Script | Stylesheet | TemplateString | RubyTextString | RubyParenthesisString

datatype page_element =
    Str string_type string
  | Tag string "(string \<times> string) list" "page_element list"

text \<open>
  The value of an attribute in the tag's dictionary: a string, or for a multi-valued
  attribute the list of its whitespace-separated tokens. Of the attributes the program
  queries (\<^verbatim>\<open>id\<close>, \<^verbatim>\<open>class\<close>, \<^verbatim>\<open>href\<close>) only \<^verbatim>\<open>class\<close> is multi-valued.
\<close>

datatype attr_value = Single string | Multi "string list"

fun get_attr :: "page_element \<Rightarrow> string \<Rightarrow> attr_value option" where
  "get_attr (Str k s) key = None"
| "get_attr (Tag n a cs) key =
     (case map_of a key of
        None \<Rightarrow> None
      | Some raw \<Rightarrow> Some (if key = ''class'' then Multi (split_ws raw) else Single raw))"

text \<open>\<^verbatim>\<open>tag.descendants\<close>: every node below the tag, in document order.\<close>

fun descendants :: "page_element \<Rightarrow> page_element list" where
  "descendants (Str k s) = []"
| "descendants (Tag n a cs) = concat (map (\<lambda>c. c # descendants c) cs)"

text \<open>The same traversal, each node paired with its \<^verbatim>\<open>.parent\<close>.\<close>

fun descendants_with_parent :: "page_element \<Rightarrow> (page_element \<times> page_element) list" where
  "descendants_with_parent (Str k s) = []"
| "descendants_with_parent (Tag n a cs) =
     concat (map (\<lambda>c. (c, Tag n a cs) # descendants_with_parent c) cs)"

text \<open>
  \<^verbatim>\<open>tag.string\<close>: the single string child, looked for through a chain of only
  children; \<^verbatim>\<open>None\<close> when a tag on the way has no child or more than one.
\<close>

fun string_of :: "page_element \<Rightarrow> string option" where
  "string_of (Str k s) = Some s"
| "string_of (Tag n a [c]) = string_of c"
| "string_of (Tag n a cs) = None"

text \<open>
  \<^verbatim>\<open>get_text\<close>: the strings below a tag whose class is one of the tag's interesting
  string types, each stripped and dropped when empty if \<^verbatim>\<open>strip\<close> is set, joined by
  the separator.
\<close>

definition interesting_string_types :: "string \<Rightarrow> string_type list" where
  "interesting_string_types name =
     (if name = ''rt'' then [RubyTextString]
      else if name = ''rp'' then [RubyParenthesisString]
      else if name = ''style'' then [Stylesheet]
      else if name = ''script'' then [Script]
      else if name = ''template'' then [TemplateString]
      else [NavigableString, CData])"

fun yield_string :: "bool \<Rightarrow> string_type list \<Rightarrow> page_element \<Rightarrow> string list" where
  "yield_string strp types (Tag n a cs) = []"
| "yield_string strp types (Str k s) =
     (if k \<notin> set types then []
      else if strp then (let s' = strip s in if length s' = 0 then [] else [s'])
      else [s])"

fun all_strings :: "page_element \<Rightarrow> bool \<Rightarrow> string list" where
  "all_strings (Tag n a cs) strp =
     concat (map (yield_string strp (interesting_string_types n)) (descendants (Tag n a cs)))"
| "all_strings (Str k s) strp =
     (if k \<notin> set [NavigableString, CData] then []
      else (let v = (if strp then strip s else s) in if length v > 0 then [v] else []))"

definition get_text :: "page_element \<Rightarrow> bool \<Rightarrow> string \<Rightarrow> string" where
  "get_text e strp separator = join separator (all_strings e strp)"

section \<open>Searching the tree\<close>

text \<open>
  What a search criterion is matched against: \<^verbatim>\<open>True\<close>, a string, a list of strings
  or a function of the (possibly absent) value.
\<close>

datatype match_against =
    MatchTrue
  | MatchStr string
  | MatchList "string list"
  | MatchFun "string option \<Rightarrow> bool"

text \<open>Matching one string value, or \<^verbatim>\<open>None\<close> for an absent attribute.\<close>

fun matches_value :: "string option \<Rightarrow> match_against \<Rightarrow> bool" where
  "matches_value v MatchTrue = (v \<noteq> None)"
| "matches_value v (MatchFun f) = f v"
| "matches_value None (MatchStr s) = (s = [])"
| "matches_value None (MatchList l) = (l = [])"
| "matches_value (Some m) (MatchList l) = list_ex (\<lambda>item. m = item) l"
| "matches_value (Some m) (MatchStr s) = (m = s)"

text \<open>
  Matching an attribute of the tag's dictionary. A multi-valued attribute matches when
  one of its tokens does, or else when the tokens joined by single spaces do.
\<close>

fun matches :: "attr_value option \<Rightarrow> match_against \<Rightarrow> bool" where
  "matches None m = matches_value None m"
| "matches (Some (Single v)) m = matches_value (Some v) m"
| "matches (Some (Multi vs)) m =
     (list_ex (\<lambda>item. matches_value (Some item) m) vs \<or> matches_value (Some (join '' '' vs)) m)"

fun search_tag :: "match_against \<Rightarrow> (string \<times> match_against) list \<Rightarrow> page_element \<Rightarrow> bool" where
  "search_tag name attrs (Str k s) = False"
| "search_tag name attrs (Tag n a cs) =
     (matches_value (Some n) name \<and>
      list_all (\<lambda>(attr, m). matches (get_attr (Tag n a cs) attr) m) attrs)"

definition find_all :: "page_element \<Rightarrow> match_against \<Rightarrow> (string \<times> match_against) list \<Rightarrow> page_element list" where
  "find_all soup name attrs = filter (search_tag name attrs) (descendants soup)"

definition find_first :: "page_element \<Rightarrow> match_against \<Rightarrow> (string \<times> match_against) list \<Rightarrow> page_element option" where
  "find_first soup name attrs = (case find_all soup name attrs of [] \<Rightarrow> None | r # rs \<Rightarrow> Some r)"

text \<open>
  \<^verbatim>\<open>find_all(string=f)\<close>: the non-empty strings of the tree that \<^verbatim>\<open>f\<close> accepts, in
  document order, here each with its parent.
\<close>

fun search_string :: "(string \<Rightarrow> bool) \<Rightarrow> page_element \<times> page_element \<Rightarrow> bool" where
  "search_string f (Str k s, parent) = (s \<noteq> [] \<and> f s)"
| "search_string f (Tag n a cs, parent) = False"

definition find_all_string :: "page_element \<Rightarrow> (string \<Rightarrow> bool) \<Rightarrow> (page_element \<times> page_element) list" where
  "find_all_string soup f = filter (search_string f) (descendants_with_parent soup)"

section \<open>The report\<close>

datatype error = OSError | UnicodeDecodeError | ParserRejectedMarkup | KeyError | AttributeError

text \<open>Standard output is the text written so far; \<^verbatim>\<open>print\<close> appends a line.\<close>

definition print :: "string \<Rightarrow> string \<Rightarrow> string" where
  "print line out = out @ line @ ''\<newline>''"

text \<open>An f-string renders \<^verbatim>\<open>None\<close> as the text \<^verbatim>\<open>None\<close>.\<close>

definition format_value :: "string option \<Rightarrow> string" where
  "format_value v = (case v of None \<Rightarrow> ''None'' | Some s \<Rightarrow> s)"

text \<open>\<^verbatim>\<open>tag[key]\<close> raises \<^verbatim>\<open>KeyError\<close> for an absent attribute.\<close>

definition getitem :: "page_element \<Rightarrow> string \<Rightarrow> error + attr_value" where
  "getitem tag key = (case get_attr tag key of None \<Rightarrow> Inl KeyError | Some v \<Rightarrow> Inr v)"

text \<open>Lines 12-13: the title.\<close>

definition title_pass :: "page_element \<Rightarrow> string \<Rightarrow> string" where
  "title_pass soup out =
     (let title = (case find_first soup (MatchStr ''title'') [] of
                     Some t \<Rightarrow> string_of t
                   | None \<Rightarrow> Some ''No Title'')
      in print (''Title: '' @ format_value title) out)"

text \<open>Lines 17-18: features.\<close>

definition features_pass :: "page_element \<Rightarrow> string \<Rightarrow> string" where
  "features_pass soup out =
     fold (\<lambda>section. print (get_text section True ''\<newline>''))
       (find_all soup (MatchList [''section'', ''div''])
          [(''id'', MatchList [''features'', ''how-it-works''])])
       out"

text \<open>
  Lines 22-31: pricing. A tag is always true as a condition, so \<^verbatim>\<open>if pricing_section\<close>
  asks whether one was found, and \<^verbatim>\<open>if parent\<close> holds for every string of the tree.
\<close>

definition pricing_pass :: "page_element \<Rightarrow> string \<Rightarrow> string" where
  "pricing_pass soup out =
     (case find_first soup (MatchList [''section'', ''div'']) [(''id'', MatchStr ''pricing'')] of
        Some pricing_section \<Rightarrow> print (get_text pricing_section True ''\<newline>'') out
      | None \<Rightarrow>
          fold (\<lambda>(p, parent). print (get_text parent True []))
            (find_all_string soup (\<lambda>t. py_in ''$'' t))
            out)"

text \<open>Lines 35-36: testimonials.\<close>

definition testimonials_pass :: "page_element \<Rightarrow> string \<Rightarrow> string" where
  "testimonials_pass soup out =
     fold (\<lambda>section. print (get_text section True ''\<newline>''))
       (find_all soup (MatchList [''section'', ''div''])
          [(''id'', MatchList [''testimonials'', ''success''])])
       out"

text \<open>Lines 40-46: the footer.\<close>

definition footer_class :: "string option \<Rightarrow> bool" where
  "footer_class c = (case c of None \<Rightarrow> False | Some c \<Rightarrow> c \<noteq> [] \<and> py_in ''footer'' (lower c))"

definition footer_pass :: "page_element \<Rightarrow> string \<Rightarrow> string" where
  "footer_pass soup out =
     (case find_first soup (MatchStr ''footer'') [] of
        Some footer \<Rightarrow> print (get_text footer True ''\<newline>'') out
      | None \<Rightarrow>
          fold (\<lambda>div_tag. print (get_text div_tag True ''\<newline>''))
            (find_all soup (MatchStr ''div'') [(''class'', MatchFun footer_class)])
            out)"

text \<open>Lines 50-54: the links.\<close>

definition link_keywords :: "string list" where
  "link_keywords = [''chrome'', ''extension'', ''privacy'', ''terms'', ''about'', ''blog'', ''support'']"

fun links_loop :: "page_element list \<Rightarrow> string \<Rightarrow> error + string" where
  "links_loop [] out = Inr out"
| "links_loop (a # as) out =
     (case getitem a ''href'' of
        Inl e \<Rightarrow> Inl e
      | Inr (Multi vs) \<Rightarrow> Inl AttributeError
      | Inr (Single href) \<Rightarrow>
          (let text = get_text a True [] in
           if list_ex (\<lambda>keyword. py_in keyword (lower href) \<or> py_in keyword (lower text)) link_keywords
           then links_loop as (print (text @ '': '' @ href) out)
           else links_loop as out))"

definition links_pass :: "page_element \<Rightarrow> string \<Rightarrow> error + string" where
  "links_pass soup out = links_loop (find_all soup (MatchStr ''a'') [(''href'', MatchTrue)]) out"

text \<open>Lines 9-54: the body of \<^verbatim>\<open>parse_file\<close> once the document is parsed.\<close>

definition report :: "string \<Rightarrow> page_element \<Rightarrow> error + string" where
  "report filename soup =
     (let out = print (''--- Analysis of '' @ filename @ '' ---'') [];
          out = title_pass soup out;
          out = print ''\<newline>[Features / How it works]'' out;
          out = features_pass soup out;
          out = print ''\<newline>[Pricing]'' out;
          out = pricing_pass soup out;
          out = print ''\<newline>[Testimonials]'' out;
          out = testimonials_pass soup out;
          out = print ''\<newline>[Footer]'' out;
          out = footer_pass soup out;
          out = print ''\<newline>[Important Links]'' out
      in links_pass soup out)"

text \<open>
  Lines 4-7: reading and parsing. The file system and the parser are parameters:
  \<open>read_file\<close> gives the decoded text of a file or the error of opening or decoding it,
  \<open>html_parser\<close> the top-level nodes of the parsed document. The root object is a tag
  named \<^verbatim>\<open>[document]\<close>.
\<close>

definition BeautifulSoup :: "page_element list \<Rightarrow> page_element" where
  "BeautifulSoup contents = Tag ''[document]'' [] contents"

definition parse_file ::
  "(string \<Rightarrow> error + string) \<Rightarrow> (string \<Rightarrow> error + page_element list) \<Rightarrow> string \<Rightarrow> error + string" where
  "parse_file read_file html_parser filename =
     (case read_file filename of
        Inl e \<Rightarrow> Inl e
      | Inr html \<Rightarrow>
          (case html_parser html of
             Inl e \<Rightarrow> Inl e
           | Inr contents \<Rightarrow> report filename (BeautifulSoup contents)))"

text \<open>Lines 56-58: the entry point; \<open>argv\<close> starts with the program's name.\<close>

definition main ::
  "(string \<Rightarrow> error + string) \<Rightarrow> (string \<Rightarrow> error + page_element list) \<Rightarrow> string list \<Rightarrow> error + string" where
  "main read_file html_parser argv =
     (if length argv > 1 then parse_file read_file html_parser (argv ! 1) else Inr [])"

section \<open>The vocabulary of the specification\<close>

text \<open>The tag name and the raw value of an attribute of an element.\<close>

fun tag_name :: "page_element \<Rightarrow> string option" where
  "tag_name (Str k s) = None"
| "tag_name (Tag n a cs) = Some n"

fun raw_attr :: "page_element \<Rightarrow> string \<Rightarrow> string option" where
  "raw_attr (Str k s) key = None"
| "raw_attr (Tag n a cs) key = map_of a key"

fun children :: "page_element \<Rightarrow> page_element list" where
  "children (Str k s) = []"
| "children (Tag n a cs) = cs"

text \<open>
  The text runs of an element are its leaf strings in document order, as
  \<^verbatim>\<open>_all_strings\<close> yields them without stripping; the trimmed runs are these, each
  stripped, without the empty ones. The newline-joined text of an element joins the
  trimmed runs by a newline. Joining the trimmed runs by nothing gives the text of the
  stripped runs, which loses the whitespace between the runs.
\<close>

definition text_runs :: "page_element \<Rightarrow> string list" where
  "text_runs e = all_strings e False"

definition trimmed_runs :: "page_element \<Rightarrow> string list" where
  "trimmed_runs e = filter (\<lambda>r. r \<noteq> []) (map strip (text_runs e))"

definition newline_joined_text :: "page_element \<Rightarrow> string" where
  "newline_joined_text e = join ''\<newline>'' (trimmed_runs e)"

definition stripped_runs_text :: "page_element \<Rightarrow> string" where
  "stripped_runs_text e = concat (trimmed_runs e)"

text \<open>
  The text of an element is its text runs one after the other, as the page shows them;
  its trimmed text is that text without the whitespace at its two ends.
\<close>

definition element_text :: "page_element \<Rightarrow> string" where
  "element_text e = concat (text_runs e)"

definition trimmed_text :: "page_element \<Rightarrow> string" where
  "trimmed_text e = strip (element_text e)"

text \<open>A string has no whitespace at either end.\<close>

definition is_trimmed :: "string \<Rightarrow> bool" where
  "is_trimmed s = (s = [] \<or> (\<not> is_space (hd s) \<and> \<not> is_space (last s)))"

text \<open>A \<^verbatim>\<open>section\<close> or \<^verbatim>\<open>div\<close> element whose \<^verbatim>\<open>id\<close> attribute is exactly the given string.\<close>

definition section_or_div_with_id :: "string \<Rightarrow> page_element \<Rightarrow> bool" where
  "section_or_div_with_id i e =
     ((tag_name e = Some ''section'' \<or> tag_name e = Some ''div'') \<and> raw_attr e ''id'' = Some i)"

text \<open>A text node that contains the character \<^verbatim>\<open>$\<close>.\<close>

fun dollar_string :: "page_element \<Rightarrow> bool" where
  "dollar_string (Str k s) = (CHR ''$'' \<in> set s)"
| "dollar_string (Tag n a cs) = False"

text \<open>
  The lines of the pricing fallback: for each such text node, the text of the stripped
  runs of its parent.
\<close>

definition pricing_fallback_lines :: "page_element \<Rightarrow> string list" where
  "pricing_fallback_lines soup =
     map (\<lambda>(p, parent). stripped_runs_text parent)
       (filter (\<lambda>(p, parent). dollar_string p) (descendants_with_parent soup))"

text \<open>
  A \<^verbatim>\<open>div\<close> whose raw \<^verbatim>\<open>class\<close> attribute string, in lower case, has the substring
  \<^verbatim>\<open>footer\<close>.
\<close>

definition footer_div :: "page_element \<Rightarrow> bool" where
  "footer_div e =
     (tag_name e = Some ''div'' \<and>
      (case raw_attr e ''class'' of None \<Rightarrow> False | Some c \<Rightarrow> py_in ''footer'' (lower c)))"

text \<open>An anchor with an \<^verbatim>\<open>href\<close> attribute, its target, and the line printed for it.\<close>

definition anchor_with_href :: "page_element \<Rightarrow> bool" where
  "anchor_with_href e = (tag_name e = Some ''a'' \<and> raw_attr e ''href'' \<noteq> None)"

definition href_of :: "page_element \<Rightarrow> string" where
  "href_of e = (case raw_attr e ''href'' of None \<Rightarrow> [] | Some h \<Rightarrow> h)"

definition has_keyword :: "string \<Rightarrow> bool" where
  "has_keyword s =
     (py_in ''chrome'' (lower s) \<or> py_in ''extension'' (lower s) \<or> py_in ''privacy'' (lower s) \<or>
      py_in ''terms'' (lower s) \<or> py_in ''about'' (lower s) \<or> py_in ''blog'' (lower s) \<or>
      py_in ''support'' (lower s))"

definition important_link :: "page_element \<Rightarrow> bool" where
  "important_link e = (has_keyword (href_of e) \<or> has_keyword (stripped_runs_text e))"

definition link_line :: "page_element \<Rightarrow> string" where
  "link_line e = stripped_runs_text e @ '': '' @ href_of e"

text \<open>The lines of a text: what is written between its newline characters.\<close>

fun split_lines :: "string \<Rightarrow> string list" where
  "split_lines [] = [[]]"
| "split_lines (c # cs) =
     (if c = CHR 0x0A then [] # split_lines cs
      else (case split_lines cs of [] \<Rightarrow> [[c]] | l # ls \<Rightarrow> (c # l) # ls))"

text \<open>One string occurs in another as a contiguous part.\<close>

definition substring :: "string \<Rightarrow> string \<Rightarrow> bool" where
  "substring k s = (\<exists>ps ss. s = ps @ k @ ss)"

text \<open>
  In a list of lines, every line equal to the given header is followed by an empty line.
\<close>

fun blank_line_follows :: "string \<Rightarrow> string list \<Rightarrow> bool" where
  "blank_line_follows h (l # l' # ls) = ((if l = h then l' = [] else True) \<and> blank_line_follows h (l' # ls))"
| "blank_line_follows h [l] = (if l = h then False else True)"
| "blank_line_follows h [] = True"

text \<open>A text is a sequence of complete lines: it is empty or ends with a newline.\<close>

definition complete_lines :: "string \<Rightarrow> bool" where
  "complete_lines t = (t = [] \<or> last t = CHR 0x0A)"

section \<open>Example documents\<close>

text \<open>
  A page with an id-marked features block, a paragraph with two price strings, a
  footer-classed \<^verbatim>\<open>div\<close> and three anchors; a page with a pricing section and a
  \<^verbatim>\<open>footer\<close> element; a page whose title is empty.
\<close>

definition example_p :: page_element where
  "example_p =
     Tag ''p'' []
       [Str NavigableString ''Only $5'', Tag ''b'' [] [Str NavigableString '' now ''],
        Str NavigableString '' or $9'']"

definition example_contents :: "page_element list" where
  "example_contents =
     [Tag ''html'' []
        [Tag ''head'' [] [Tag ''title'' [] [Str NavigableString ''Acme'']],
         Tag ''body'' []
           [Tag ''div'' [(''id'', ''features'')]
              [Str NavigableString ''  Hello '', Tag ''b'' [] [Str NavigableString ''World'']],
            example_p,
            Tag ''div'' [(''class'', ''x Site-Footer'')] [Str NavigableString ''Contact us''],
            Tag ''a'' [(''href'', ''/privacy-policy'')] [Str NavigableString ''Policy''],
            Tag ''a'' [(''href'', ''/random'')] [Str NavigableString ''Random''],
            Tag ''a'' [] [Str NavigableString ''About'']]]]"

definition example_page :: page_element where
  "example_page = BeautifulSoup example_contents"

definition priced_page :: page_element where
  "priced_page =
     BeautifulSoup
       [Tag ''section'' [(''id'', ''pricing'')] [Str NavigableString ''$9/mo''],
        Tag ''footer'' [] [Str NavigableString '' Contact '', Tag ''b'' [] [Str NavigableString ''us'']]]"

text \<open>
  An anchor whose two text runs only form a keyword when glued, and a page of anchors:
  a keyword in capitals in the target, one in capitals in the text, none at all, an
  empty target, the glued one, an anchor without target and one without text.
\<close>

definition glued_anchor :: page_element where
  "glued_anchor =
     Tag ''a'' [(''href'', ''/s'')] [Str NavigableString ''Sup '', Tag ''b'' [] [Str NavigableString ''port'']]"

definition links_page :: page_element where
  "links_page =
     BeautifulSoup
       [Tag ''a'' [(''href'', ''/Docs/PRIVACY.html'')] [Str NavigableString ''  Policy  ''],
        Tag ''a'' [(''href'', ''/x'')] [Str NavigableString '' ABOUT '', Tag ''b'' [] [Str NavigableString '' Us '']],
        Tag ''a'' [(''href'', ''/random'')] [Str NavigableString ''Random''],
        Tag ''a'' [(''href'', [])] [Str NavigableString ''Tech Support''],
        glued_anchor,
        Tag ''a'' [] [Str NavigableString ''Blog''],
        Tag ''a'' [(''href'', ''/terms'')] []]"

definition empty_title_page :: page_element where
  "empty_title_page = BeautifulSoup [Tag ''html'' [] [Tag ''head'' [] [Tag ''title'' [] []]]]"

definition example_read_file :: "string \<Rightarrow> error + string" where
  "example_read_file name = (if name = ''page.html'' then Inr ''<html>...</html>'' else Inl OSError)"

definition example_parser :: "string \<Rightarrow> error + page_element list" where
  "example_parser html = (if html = [] then Inl ParserRejectedMarkup else Inr example_contents)"

section \<open>Lemmas on strings\<close>

lemma py_in_iff: "py_in k s \<longleftrightarrow> (\<exists>ps ss. s = ps @ k @ ss)"
proof (induction s)
  case Nil
  show ?case by auto
next
  case (Cons c cs)
  have pre: "take (length k) (c # cs) = k \<longleftrightarrow> (\<exists>ss. c # cs = k @ ss)"
    by (metis append_eq_conv_conj append_take_drop_id)
  have "(\<exists>ps ss. c # cs = ps @ k @ ss) \<longleftrightarrow> (\<exists>ss. c # cs = k @ ss) \<or> (\<exists>ps ss. cs = ps @ k @ ss)"
    (is "?L \<longleftrightarrow> ?A \<or> ?B")
  proof
    assume ?L
    then obtain ps ss where e: "c # cs = ps @ k @ ss" by blast
    show "?A \<or> ?B"
    proof (cases ps)
      case Nil
      with e show ?thesis by auto
    next
      case (Cons p ps')
      with e have "cs = ps' @ k @ ss" by simp
      then show ?thesis by blast
    qed
  next
    assume "?A \<or> ?B"
    then show ?L
    proof
      assume ?A
      then obtain ss where "c # cs = [] @ k @ ss" by auto
      then show ?L by blast
    next
      assume ?B
      then obtain ps ss where "cs = ps @ k @ ss" by blast
      then have "c # cs = (c # ps) @ k @ ss" by simp
      then show ?L by blast
    qed
  qed
  with Cons pre show ?case by simp
qed

lemma py_in_single: "py_in [c] s \<longleftrightarrow> c \<in> set s"
  by (induction s) auto

lemma fold_print: "fold (\<lambda>x. print (f x)) xs out = out @ concat (map (\<lambda>x. f x @ ''\<newline>'') xs)"
  by (induction xs arbitrary: out) (simp_all add: print_def)

lemma join_empty_sep: "join [] xs = concat xs"
  by (induction "[] :: string" xs rule: join.induct) simp_all

lemma strip_is_trimmed: "is_trimmed (strip s)"
proof -
  define d where "d = dropWhile is_space s"
  define r where "r = dropWhile is_space (rev d)"
  have st: "strip s = rev r" by (simp add: strip_def d_def r_def)
  show ?thesis
  proof (cases "r = []")
    case True
    with st show ?thesis by (simp add: is_trimmed_def)
  next
    case False
    then have "\<not> is_space (hd r)" unfolding r_def by (rule hd_dropWhile)
    then have l: "\<not> is_space (last (rev r))" by (simp add: last_rev)
    have "rev d = takeWhile is_space (rev d) @ r" by (simp add: r_def)
    then have "rev (rev d) = rev (takeWhile is_space (rev d) @ r)" by simp
    then have dd: "d = rev r @ rev (takeWhile is_space (rev d))" by simp
    with False have dne: "d \<noteq> []" by auto
    then have "\<not> is_space (hd d)" unfolding d_def by (rule hd_dropWhile)
    moreover have "hd d = hd (rev r)" using False by (subst dd) simp
    ultimately have h: "\<not> is_space (hd (rev r))" by simp
    from h l st show ?thesis by (simp add: is_trimmed_def)
  qed
qed

lemma strip_Nil: "strip [] = []"
  by (simp add: strip_def)

lemma strip_trimmed_id:
  assumes "is_trimmed s"
  shows "strip s = s"
proof (cases "s = []")
  case True
  then show ?thesis by (simp add: strip_Nil)
next
  case False
  with assms have h: "\<not> is_space (hd s)" and l: "\<not> is_space (last s)"
    by (simp_all add: is_trimmed_def)
  from h have 1: "dropWhile is_space s = s"
    by (simp add: dropWhile_eq_self_iff)
  from l have "\<not> is_space (hd (rev s))" by (simp add: hd_rev)
  then have 2: "dropWhile is_space (rev s) = rev s"
    by (simp add: dropWhile_eq_self_iff)
  show ?thesis by (simp add: strip_def 1 2)
qed

lemma is_trimmed_iff: "is_trimmed s \<longleftrightarrow> strip s = s"
  by (metis strip_is_trimmed strip_trimmed_id)

lemma all_strings_strip:
  "all_strings e True = filter (\<lambda>r. r \<noteq> []) (map strip (all_strings e False))"
proof (cases e)
  case (Str k s)
  then show ?thesis by (simp add: Let_def strip_Nil)
next
  case (Tag n a cs)
  have y: "yield_string True ts d = filter (\<lambda>r. r \<noteq> []) (map strip (yield_string False ts d))" for ts d
    by (cases d) (simp_all add: Let_def)
  show ?thesis
    unfolding Tag all_strings.simps
    by (induction "descendants (Tag n a cs)") (simp_all add: y filter_concat map_concat comp_def)
qed

lemma get_text_strip: "get_text e True sep = join sep (trimmed_runs e)"
  by (simp add: get_text_def trimmed_runs_def text_runs_def all_strings_strip)

lemma trimmed_runs_trimmed: "r \<in> set (trimmed_runs e) \<Longrightarrow> r \<noteq> [] \<and> is_trimmed r"
  by (auto simp: trimmed_runs_def strip_is_trimmed)

lemma join_hd: "x \<noteq> [] \<Longrightarrow> hd (join sep (x # xs)) = hd x"
  by (cases xs) simp_all

lemma join_not_Nil: "xs \<noteq> [] \<Longrightarrow> last xs \<noteq> [] \<Longrightarrow> join sep xs \<noteq> []"
  by (induction sep xs rule: join.induct) simp_all

lemma join_last: "xs \<noteq> [] \<Longrightarrow> last xs \<noteq> [] \<Longrightarrow> last (join sep xs) = last (last xs)"
proof (induction sep xs rule: join.induct)
  case (3 sep x y ys)
  then have "join sep (y # ys) \<noteq> []" by (intro join_not_Nil) simp_all
  with 3 show ?case by simp
qed simp_all

lemma join_trimmed:
  assumes "\<forall>r\<in>set rs. r \<noteq> [] \<and> is_trimmed r"
  shows "is_trimmed (join sep rs)"
proof (cases rs)
  case Nil
  then show ?thesis by (simp add: is_trimmed_def)
next
  case (Cons x xs)
  with assms have x: "x \<noteq> []" "\<not> is_space (hd x)" by (auto simp: is_trimmed_def)
  from Cons assms have "last rs \<in> set rs" by simp
  with assms have l: "last rs \<noteq> []" "\<not> is_space (last (last rs))" by (auto simp: is_trimmed_def)
  from x Cons have "hd (join sep rs) = hd x" by (simp add: join_hd)
  moreover from l Cons have "last (join sep rs) = last (last rs)" by (simp add: join_last)
  ultimately show ?thesis using x l by (simp add: is_trimmed_def)
qed

lemma substring_map: "substring k s \<Longrightarrow> substring (map f k) (map f s)"
  by (auto simp: substring_def) (metis map_append)

lemma substring_trans: "substring k t \<Longrightarrow> substring t s \<Longrightarrow> substring k s"
  unfolding substring_def by (metis append.assoc)

lemma split_ws_Nil:
  assumes "dropWhile is_space s = []"
  shows "split_ws s = []"
  by (subst split_ws.simps) (simp only: assms list.case)

lemma split_ws_Cons:
  assumes "dropWhile is_space s = c # cs"
  shows "split_ws s = (c # takeWhile (\<lambda>x. \<not> is_space x) cs) # split_ws (dropWhile (\<lambda>x. \<not> is_space x) cs)"
  by (subst split_ws.simps) (simp only: assms list.case)

lemma token_substring: "t \<in> set (split_ws s) \<Longrightarrow> substring t s"
proof (induction s rule: split_ws.induct)
  case (1 s)
  show ?case
  proof (cases "dropWhile is_space s")
    case Nil
    with 1 show ?thesis by (simp add: split_ws_Nil)
  next
    case (Cons c cs)
    let ?tok = "c # takeWhile (\<lambda>x. \<not> is_space x) cs"
    let ?rest = "dropWhile (\<lambda>x. \<not> is_space x) cs"
    have "s = takeWhile is_space s @ dropWhile is_space s" by simp
    also have "dropWhile is_space s = ?tok @ ?rest" using Cons by simp
    finally have s: "s = takeWhile is_space s @ ?tok @ ?rest" .
    from 1(2) Cons have "t = ?tok \<or> t \<in> set (split_ws ?rest)" by (simp add: split_ws_Cons)
    then show ?thesis
    proof
      assume "t = ?tok"
      with s show ?thesis unfolding substring_def by blast
    next
      assume "t \<in> set (split_ws ?rest)"
      then have "substring t ?rest" using 1(1) Cons by simp
      moreover have "substring ?rest s" unfolding substring_def
        using s by (metis append.assoc append_Nil2)
      ultimately show ?thesis by (rule substring_trans)
    qed
  qed
qed

lemma token_not_Nil: "t \<in> set (split_ws s) \<Longrightarrow> t \<noteq> []"
proof (induction s rule: split_ws.induct)
  case (1 s)
  show ?case
  proof (cases "dropWhile is_space s")
    case Nil
    with 1 show ?thesis by (simp add: split_ws_Nil)
  next
    case (Cons c cs)
    with 1 show ?thesis by (auto simp: split_ws_Cons)
  qed
qed

lemma append_eq_appendE:
  assumes "xs @ ys = zs @ ts"
  obtains (left) us where "xs = zs @ us" and "us @ ys = ts"
        | (right) us where "xs @ us = zs" and "ys = us @ ts"
  using assms by (auto simp: append_eq_append_conv2)

text \<open>An occurrence of a word without whitespace lies inside one token.\<close>

lemma skip_prefix:
  assumes "xs @ ys = ps @ m @ ss" and "m \<noteq> []" and "\<forall>x\<in>set xs. P x" and "\<not> P (hd m)"
  shows "\<exists>ps'. ys = ps' @ m @ ss"
  using assms(1)
proof (cases rule: append_eq_appendE)
  case (left us)
  show ?thesis
  proof (cases us)
    case Nil
    with left show ?thesis by auto
  next
    case (Cons u us')
    with left assms(2) have "hd m = u" by (cases m) auto
    moreover from left Cons have "u \<in> set xs" by simp
    ultimately show ?thesis using assms(3,4) by blast
  qed
next
  case (right us)
  then show ?thesis by blast
qed

lemma inside_prefix:
  assumes "us @ rest = m @ ss" and "rest \<noteq> [] \<Longrightarrow> hd rest \<notin> set m"
  shows "\<exists>vs. us = m @ vs"
  using assms(1)
proof (cases rule: append_eq_appendE)
  case (left vs)
  then show ?thesis by blast
next
  case (right vs)
  show ?thesis
  proof (cases vs)
    case Nil
    with right show ?thesis by simp
  next
    case (Cons v vs')
    with right have "rest \<noteq> []" and "hd rest = v" and "v \<in> set m" by auto
    with assms(2) show ?thesis by simp
  qed
qed

lemma occurrence_in_token:
  assumes "substring m s" and "m \<noteq> []" and "\<forall>x\<in>set m. \<not> is_space x"
  shows "\<exists>t\<in>set (split_ws s). substring m t"
  using assms
proof (induction s rule: split_ws.induct)
  case (1 s)
  note IH = "1.IH" and sub = "1.prems"(1) and ne = "1.prems"(2) and nsp = "1.prems"(3)
  from ne nsp have hm: "\<not> is_space (hd m)" by (cases m) auto
  from sub obtain ps ss where s: "s = ps @ m @ ss" unfolding substring_def by blast
  have "takeWhile is_space s @ dropWhile is_space s = ps @ m @ ss" using s by simp
  moreover have "\<forall>x\<in>set (takeWhile is_space s). is_space x" by (auto dest: set_takeWhileD)
  ultimately obtain ps' where d: "dropWhile is_space s = ps' @ m @ ss"
    using skip_prefix [where P = is_space] ne hm by blast
  with ne have "dropWhile is_space s \<noteq> []" by simp
  then obtain c cs where Cons: "dropWhile is_space s = c # cs"
    by (cases "dropWhile is_space s") simp_all
  define tok where "tok = c # takeWhile (\<lambda>x. \<not> is_space x) cs"
  define rest where "rest = dropWhile (\<lambda>x. \<not> is_space x) cs"
  have sw: "split_ws s = tok # split_ws rest"
    unfolding tok_def rest_def using Cons by (rule split_ws_Cons)
  have rest_sp: "hd rest \<notin> set m" if "rest \<noteq> []"
  proof -
    from that have "\<not> \<not> is_space (hd rest)" unfolding rest_def by (rule hd_dropWhile)
    with nsp show ?thesis by auto
  qed
  have "tok @ rest = ps' @ m @ ss" using Cons d by (simp add: tok_def rest_def)
  then show ?case
  proof (cases rule: append_eq_appendE)
    case (left us)
    from left(2) rest_sp obtain vs where "us = m @ vs" using inside_prefix by blast
    with left(1) have "tok = ps' @ m @ vs" by simp
    then have "substring m tok" unfolding substring_def by blast
    with sw show ?thesis by simp
  next
    case (right us)
    then have "substring m rest" unfolding substring_def by blast
    then have "\<exists>t\<in>set (split_ws rest). substring m t"
      using IH [OF Cons] ne nsp unfolding rest_def by simp
    with sw show ?thesis by simp
  qed
qed

lemma substring_sep:
  assumes "substring k (x @ sep # y)" and "sep \<notin> set k"
  shows "substring k x \<or> substring k y"
proof -
  from assms(1) obtain ps ss where "x @ sep # y = ps @ k @ ss" unfolding substring_def by blast
  then show ?thesis
  proof (cases rule: append_eq_appendE)
    case (left us)
    from left(2) assms(2) obtain vs where "us = k @ vs"
      using inside_prefix [of us "sep # y" k ss] by auto
    with left(1) have "x = ps @ k @ vs" by simp
    then show ?thesis unfolding substring_def by blast
  next
    case (right us)
    show ?thesis
    proof (cases us)
      case Nil
      with right have "sep # y = k @ ss" by simp
      with assms(2) have "k = []" by (cases k) auto
      then have "x = x @ k @ []" by simp
      then show ?thesis unfolding substring_def by blast
    next
      case (Cons u us')
      with right have "y = us' @ k @ ss" by simp
      then show ?thesis unfolding substring_def by blast
    qed
  qed
qed

lemma substring_join:
  assumes "substring k (join [sep] ts)" and "sep \<notin> set k" and "k \<noteq> []"
  shows "\<exists>t\<in>set ts. substring k t"
  using assms
proof (induction "[sep]" ts rule: join.induct)
  case 1
  then show ?case by (simp add: substring_def)
next
  case (2 x)
  then show ?case by simp
next
  case (3 x y ys)
  from "3.prems"(1) have "substring k (x @ sep # join [sep] (y # ys))" by simp
  then have "substring k x \<or> substring k (join [sep] (y # ys))"
    using "3.prems"(2) by (rule substring_sep)
  with 3 show ?case by auto
qed

section \<open>Lemmas on the search and the passes\<close>

lemma search_section_div_ids:
  "search_tag (MatchList [''section'', ''div'']) [(''id'', MatchList [i, j])]
     = (\<lambda>e. section_or_div_with_id i e \<or> section_or_div_with_id j e)"
proof
  fix e
  show "search_tag (MatchList [''section'', ''div'']) [(''id'', MatchList [i, j])] e
     = (section_or_div_with_id i e \<or> section_or_div_with_id j e)"
    by (cases e) (auto simp: section_or_div_with_id_def split: option.splits)
qed

lemma search_section_div_id:
  "search_tag (MatchList [''section'', ''div'']) [(''id'', MatchStr ''pricing'')]
     = section_or_div_with_id ''pricing''"
proof
  fix e
  show "search_tag (MatchList [''section'', ''div'']) [(''id'', MatchStr ''pricing'')] e
     = section_or_div_with_id ''pricing'' e"
    by (cases e) (auto simp: section_or_div_with_id_def split: option.splits)
qed

lemma search_name: "search_tag (MatchStr n) [] e \<longleftrightarrow> tag_name e = Some n"
  by (cases e) auto

lemma search_anchor: "search_tag (MatchStr ''a'') [(''href'', MatchTrue)] e \<longleftrightarrow> anchor_with_href e"
  by (cases e) (auto simp: anchor_with_href_def split: option.splits)

lemma find_first_Cons: "find_all soup name attrs = e # rest \<Longrightarrow> find_first soup name attrs = Some e"
  by (simp add: find_first_def)

lemma find_first_Nil: "find_all soup name attrs = [] \<Longrightarrow> find_first soup name attrs = None"
  by (simp add: find_first_def)

lemma features_eq:
  "features_pass soup out =
     out @ concat (map (\<lambda>e. newline_joined_text e @ ''\<newline>'')
       (filter (\<lambda>e. section_or_div_with_id ''features'' e \<or> section_or_div_with_id ''how-it-works'' e)
          (descendants soup)))"
  by (simp add: features_pass_def fold_print find_all_def search_section_div_ids get_text_strip
      newline_joined_text_def)

lemma search_dollar: "search_string (\<lambda>t. py_in ''$'' t) (p, parent) \<longleftrightarrow> dollar_string p"
  by (cases p) (auto simp: py_in_single)

lemma pricing_eq1:
  assumes "filter (section_or_div_with_id ''pricing'') (descendants soup) = e # rest"
  shows "pricing_pass soup out = out @ newline_joined_text e @ ''\<newline>''"
proof -
  have "find_all soup (MatchList [''section'', ''div'']) [(''id'', MatchStr ''pricing'')] = e # rest"
    using assms by (simp add: find_all_def search_section_div_id)
  then have "find_first soup (MatchList [''section'', ''div'']) [(''id'', MatchStr ''pricing'')] = Some e"
    by (rule find_first_Cons)
  then show ?thesis
    by (simp add: pricing_pass_def print_def get_text_strip newline_joined_text_def)
qed

lemma pricing_eq2:
  assumes "filter (section_or_div_with_id ''pricing'') (descendants soup) = []"
  shows "pricing_pass soup out = out @ concat (map (\<lambda>l. l @ ''\<newline>'') (pricing_fallback_lines soup))"
proof -
  have "find_all soup (MatchList [''section'', ''div'']) [(''id'', MatchStr ''pricing'')] = []"
    using assms by (simp add: find_all_def search_section_div_id)
  then have "find_first soup (MatchList [''section'', ''div'']) [(''id'', MatchStr ''pricing'')] = None"
    by (rule find_first_Nil)
  moreover have "find_all_string soup (\<lambda>t. py_in ''$'' t)
      = filter (\<lambda>(p, parent). dollar_string p) (descendants_with_parent soup)"
    unfolding find_all_string_def by (rule filter_cong) (auto simp: search_dollar)
  ultimately show ?thesis
    by (simp add: pricing_pass_def fold_print pricing_fallback_lines_def get_text_strip
        join_empty_sep stripped_runs_text_def comp_def case_prod_unfold)
qed

lemma py_in_substring: "py_in k s = substring k s"
  by (simp add: py_in_iff substring_def)

lemma is_space_lower_char: "is_space (lower_char c) = is_space c"
proof (cases "is_upper c")
  case True
  then have "(of_char c :: nat) + 32 < 256" by (auto simp: is_upper_def Let_def)
  then have "(of_char (char_of (of_char c + 32 :: nat)) :: nat) = of_char c + 32"
    by (simp add: of_char_of)
  with True show ?thesis by (auto simp: lower_char_def is_space_def is_upper_def Let_def)
next
  case False
  then show ?thesis by (simp add: lower_char_def)
qed

lemma lower_join: "lower (join '' '' ts) = join '' '' (map lower ts)"
  by (induction "'' ''" ts rule: join.induct) (simp_all add: lower_def lower_char_def is_upper_def)

lemma lower_word_no_space:
  assumes "lower m = k" and "\<forall>x\<in>set k. \<not> is_space x"
  shows "\<forall>x\<in>set m. \<not> is_space x"
proof
  fix x assume "x \<in> set m"
  then have "lower_char x \<in> set k" using assms(1) by (auto simp: lower_def)
  with assms(2) have "\<not> is_space (lower_char x)" by blast
  then show "\<not> is_space x" by (simp add: is_space_lower_char)
qed

lemma substring_map_inv:
  assumes "substring k (map f s)"
  shows "\<exists>m. substring m s \<and> map f m = k"
proof -
  from assms obtain ps ss where "map f s = ps @ (k @ ss)" unfolding substring_def by blast
  then have "\<exists>us ws. s = us @ ws \<and> ps = map f us \<and> k @ ss = map f ws"
    by (rule iffD1 [OF map_eq_append_conv])
  then obtain us ws where 1: "s = us @ ws" and 2: "map f ws = k @ ss"
    by (elim exE conjE) simp
  from 2 have "\<exists>m vs. ws = m @ vs \<and> k = map f m \<and> ss = map f vs"
    by (rule iffD1 [OF map_eq_append_conv])
  then obtain m vs where 3: "ws = m @ vs" and 4: "k = map f m"
    by (elim exE conjE)
  from 1 3 have "s = us @ m @ vs" by simp
  then have "substring m s" unfolding substring_def by blast
  with 4 show ?thesis by blast
qed

lemma footer_no_space: "\<forall>x\<in>set ''footer''. \<not> is_space x"
  by (simp add: is_space_def)

lemma footer_tokens:
  "(list_ex (\<lambda>item. footer_class (Some item)) (split_ws raw)
      \<or> footer_class (Some (join '' '' (split_ws raw))))
   \<longleftrightarrow> py_in ''footer'' (lower raw)"
  (is "?L \<longleftrightarrow> ?R")
proof
  assume ?L
  then have "\<exists>t\<in>set (split_ws raw). substring ''footer'' (lower t)"
  proof
    assume "list_ex (\<lambda>item. footer_class (Some item)) (split_ws raw)"
    then show ?thesis by (auto simp: list_ex_iff footer_class_def py_in_substring)
  next
    assume "footer_class (Some (join '' '' (split_ws raw)))"
    then have "substring ''footer'' (join '' '' (map lower (split_ws raw)))"
      by (simp add: footer_class_def py_in_substring lower_join)
    then have "\<exists>t\<in>set (map lower (split_ws raw)). substring ''footer'' t"
      by (rule substring_join) simp_all
    then show ?thesis by auto
  qed
  then obtain t where t: "t \<in> set (split_ws raw)" and s: "substring ''footer'' (lower t)" by blast
  from t have "substring t raw" by (rule token_substring)
  then have "substring (lower t) (lower raw)" unfolding lower_def by (rule substring_map)
  with s have "substring ''footer'' (lower raw)" by (rule substring_trans)
  then show ?R by (simp add: py_in_substring)
next
  assume ?R
  then have "substring ''footer'' (map lower_char raw)"
    by (simp add: py_in_substring lower_def)
  then have "\<exists>m. substring m raw \<and> map lower_char m = ''footer''"
    by (rule substring_map_inv)
  then obtain m where raw: "substring m raw" and m0: "map lower_char m = ''footer''"
    by (elim exE conjE)
  have m: "lower m = ''footer''" unfolding lower_def by (rule m0)
  from m have ne: "m \<noteq> []" by (auto simp: lower_def)
  from m footer_no_space have "\<forall>x\<in>set m. \<not> is_space x" by (rule lower_word_no_space)
  with raw obtain t where t: "t \<in> set (split_ws raw)" and s: "substring m t"
    using occurrence_in_token ne by blast
  from s have "substring (lower m) (lower t)" unfolding lower_def by (rule substring_map)
  with m have "py_in ''footer'' (lower t)" by (simp add: py_in_substring)
  moreover from t have "t \<noteq> []" by (rule token_not_Nil)
  ultimately have "footer_class (Some t)" by (simp add: footer_class_def)
  with t show ?L by (auto simp: list_ex_iff)
qed

lemma search_footer_div:
  "search_tag (MatchStr ''div'') [(''class'', MatchFun footer_class)] = footer_div"
proof
  fix e
  show "search_tag (MatchStr ''div'') [(''class'', MatchFun footer_class)] e = footer_div e"
  proof (cases e)
    case (Str k s)
    then show ?thesis by (simp add: footer_div_def)
  next
    case (Tag n a cs)
    show ?thesis
    proof (cases "map_of a ''class''")
      case None
      with Tag show ?thesis by (simp add: footer_div_def footer_class_def)
    next
      case (Some raw)
      with Tag show ?thesis using footer_tokens [of raw] by (simp add: footer_div_def)
    qed
  qed
qed

lemma footer_eq1:
  assumes "filter (\<lambda>e. tag_name e = Some ''footer'') (descendants soup) = e # rest"
  shows "footer_pass soup out = out @ newline_joined_text e @ ''\<newline>''"
proof -
  have "find_all soup (MatchStr ''footer'') [] = e # rest"
    using assms by (simp add: find_all_def search_name [abs_def])
  then have "find_first soup (MatchStr ''footer'') [] = Some e"
    by (rule find_first_Cons)
  then show ?thesis
    by (simp add: footer_pass_def print_def get_text_strip newline_joined_text_def)
qed

lemma footer_eq2:
  assumes "filter (\<lambda>e. tag_name e = Some ''footer'') (descendants soup) = []"
  shows "footer_pass soup out =
    out @ concat (map (\<lambda>e. newline_joined_text e @ ''\<newline>'') (filter footer_div (descendants soup)))"
proof -
  have "find_all soup (MatchStr ''footer'') [] = []"
    using assms by (simp add: find_all_def search_name [abs_def])
  then have "find_first soup (MatchStr ''footer'') [] = None"
    by (rule find_first_Nil)
  then show ?thesis
    by (simp add: footer_pass_def fold_print find_all_def search_footer_div get_text_strip
        newline_joined_text_def)
qed

lemma getitem_href:
  assumes "anchor_with_href a"
  shows "getitem a ''href'' = Inr (Single (href_of a))"
proof (cases a)
  case (Str k s)
  with assms show ?thesis by (simp add: anchor_with_href_def)
next
  case (Tag n attrs cs)
  with assms show ?thesis
    by (auto simp: anchor_with_href_def getitem_def href_of_def)
qed

lemma keyword_test:
  "list_ex (\<lambda>keyword. py_in keyword (lower href) \<or> py_in keyword (lower text)) link_keywords
     = (has_keyword href \<or> has_keyword text)"
  by (auto simp: link_keywords_def has_keyword_def)

lemma links_loop_eq:
  assumes "\<forall>a\<in>set as. anchor_with_href a"
  shows "links_loop as out = Inr (out @ concat (map (\<lambda>a. link_line a @ ''\<newline>'') (filter important_link as)))"
  using assms
proof (induction as arbitrary: out)
  case Nil
  show ?case by simp
next
  case (Cons a as)
  then have h: "getitem a ''href'' = Inr (Single (href_of a))" by (simp add: getitem_href)
  have t: "get_text a True [] = stripped_runs_text a"
    by (simp add: get_text_strip join_empty_sep stripped_runs_text_def)
  from Cons have IH: "\<And>out. links_loop as out =
      Inr (out @ concat (map (\<lambda>a. link_line a @ ''\<newline>'') (filter important_link as)))"
    by simp
  have k: "(has_keyword (href_of a) \<or> has_keyword (stripped_runs_text a)) = important_link a"
    by (simp add: important_link_def)
  show ?case
    by (simp add: h t keyword_test k IH link_line_def print_def Let_def)
qed

lemma links_eq:
  "links_pass soup out =
     Inr (out @ concat (map (\<lambda>a. link_line a @ ''\<newline>'')
       (filter important_link (filter anchor_with_href (descendants soup)))))"
proof -
  have "find_all soup (MatchStr ''a'') [(''href'', MatchTrue)] = filter anchor_with_href (descendants soup)"
    unfolding find_all_def by (rule filter_cong) (auto simp: search_anchor)
  then show ?thesis by (simp add: links_pass_def links_loop_eq)
qed

lemma filter_concat_ge:
  "c \<in> set cs \<Longrightarrow> length (filter R (g c)) \<le> length (filter R (concat (map g cs)))"
  by (induction cs) auto

lemma children_pairs_general:
  "length (filter (\<lambda>c. R (c, P)) cs) \<le> length (filter R (concat (map (\<lambda>c. (c, P) # g c) cs)))"
  by (induction cs) auto

lemma children_pairs:
  "length (filter (\<lambda>c. R (c, p)) (children p)) \<le> length (filter R (descendants_with_parent p))"
proof (cases p)
  case (Str k s)
  then show ?thesis by simp
next
  case (Tag n a cs)
  then show ?thesis using children_pairs_general [of R "Tag n a cs" cs descendants_with_parent] by simp
qed

lemma descendant_pairs:
  "p \<in> set (descendants soup) \<Longrightarrow>
   length (filter R (descendants_with_parent p)) \<le> length (filter R (descendants_with_parent soup))"
proof (induction soup)
  case (Str k s)
  then show ?case by simp
next
  case (Tag n a cs)
  from Tag.prems obtain c where c: "c \<in> set cs" and p: "p = c \<or> p \<in> set (descendants c)"
    by auto
  let ?g = "\<lambda>c. (c, Tag n a cs) # descendants_with_parent c"
  from p have "length (filter R (descendants_with_parent p)) \<le> length (filter R (descendants_with_parent c))"
    using Tag.IH [OF c] by auto
  also have "\<dots> \<le> length (filter R (?g c))" by simp
  also have "\<dots> \<le> length (filter R (concat (map ?g cs)))" using c by (rule filter_concat_ge)
  finally show ?case by simp
qed

lemma parents_are_descendants: "map fst (descendants_with_parent soup) = descendants soup"
proof (induction soup)
  case (Str k s)
  show ?case by simp
next
  case (Tag n a cs)
  then show ?case by (induction cs) (simp_all add: map_concat comp_def)
qed

lemma fallback_count:
  assumes "p = soup \<or> p \<in> set (descendants soup)"
  shows "length (filter dollar_string (children p))
           \<le> count_list (pricing_fallback_lines soup) (stripped_runs_text p)"
proof -
  define R where "R = (\<lambda>(c, parent). dollar_string c \<and> stripped_runs_text p = stripped_runs_text parent)"
  have "length (filter dollar_string (children p)) = length (filter (\<lambda>c. R (c, p)) (children p))"
    by (simp add: R_def)
  also have "\<dots> \<le> length (filter R (descendants_with_parent p))" by (rule children_pairs)
  also have "\<dots> \<le> length (filter R (descendants_with_parent soup))"
    using assms descendant_pairs by auto
  also have "\<dots> = count_list (pricing_fallback_lines soup) (stripped_runs_text p)"
    unfolding count_list_eq_length_filter pricing_fallback_lines_def filter_map length_map
    by (simp add: R_def comp_def case_prod_unfold conj_commute)
  finally show ?thesis .
qed

lemma fallback_length:
  "length (pricing_fallback_lines soup) = length (filter dollar_string (descendants soup))"
proof -
  have "filter dollar_string (descendants soup)
      = map fst (filter (\<lambda>(p, parent). dollar_string p) (descendants_with_parent soup))"
    unfolding parents_are_descendants [symmetric] filter_map
    by (simp add: comp_def case_prod_unfold)
  then show ?thesis by (simp add: pricing_fallback_lines_def)
qed

section \<open>Lemmas on the layout of the report\<close>

text \<open>The title line: the three cases of lines 12-13.\<close>

lemma title_pass_eq:
  "title_pass soup out =
     out @ ''Title: '' @
       (case filter (\<lambda>e. tag_name e = Some ''title'') (descendants soup) of
          [] \<Rightarrow> ''No Title''
        | t # ts \<Rightarrow> (case string_of t of None \<Rightarrow> ''None'' | Some s \<Rightarrow> s)) @ ''\<newline>''"
proof -
  have "find_all soup (MatchStr ''title'') [] = filter (\<lambda>e. tag_name e = Some ''title'') (descendants soup)"
    by (simp add: find_all_def search_name [abs_def])
  then show ?thesis
    by (simp add: title_pass_def find_first_def print_def format_value_def
        split: list.split option.split)
qed

lemma complete_lines_concat: "complete_lines (concat (map (\<lambda>x. f x @ ''\<newline>'') xs))"
  by (induction xs rule: rev_induct) (simp_all add: complete_lines_def)

lemma testimonials_eq:
  "testimonials_pass soup out =
     out @ concat (map (\<lambda>e. newline_joined_text e @ ''\<newline>'')
       (filter (\<lambda>e. section_or_div_with_id ''testimonials'' e \<or> section_or_div_with_id ''success'' e)
          (descendants soup)))"
  by (simp add: testimonials_pass_def fold_print find_all_def search_section_div_ids get_text_strip
      newline_joined_text_def)

lemma title_pass_append: "title_pass soup out = out @ title_pass soup []"
  by (simp add: title_pass_def print_def)

lemma features_pass_append: "features_pass soup out = out @ features_pass soup []"
  by (simp add: features_eq)

lemma testimonials_pass_append: "testimonials_pass soup out = out @ testimonials_pass soup []"
  by (simp add: testimonials_eq)

lemma pricing_pass_append: "pricing_pass soup out = out @ pricing_pass soup []"
  by (simp add: pricing_pass_def fold_print print_def case_prod_unfold split: option.split)

lemma footer_pass_append: "footer_pass soup out = out @ footer_pass soup []"
  by (simp add: footer_pass_def fold_print print_def split: option.split)

lemma title_complete: "complete_lines (title_pass soup [])"
  by (simp add: title_pass_def print_def complete_lines_def)

lemma features_complete: "complete_lines (features_pass soup [])"
  by (simp add: features_eq complete_lines_concat)

lemma testimonials_complete: "complete_lines (testimonials_pass soup [])"
  by (simp add: testimonials_eq complete_lines_concat)

lemma pricing_complete: "complete_lines (pricing_pass soup [])"
proof (cases "find_first soup (MatchList [''section'', ''div'']) [(''id'', MatchStr ''pricing'')]")
  case None
  then show ?thesis
    using complete_lines_concat [of "\<lambda>x. get_text (snd x) True []"]
    by (simp add: pricing_pass_def fold_print case_prod_unfold)
next
  case (Some e)
  then show ?thesis by (simp add: pricing_pass_def print_def complete_lines_def)
qed

lemma footer_complete: "complete_lines (footer_pass soup [])"
proof (cases "find_first soup (MatchStr ''footer'') []")
  case None
  then show ?thesis
    using complete_lines_concat [of "\<lambda>x. get_text x True ''\<newline>''"]
    by (simp add: footer_pass_def fold_print)
next
  case (Some e)
  then show ?thesis by (simp add: footer_pass_def print_def complete_lines_def)
qed

lemma report_eq:
  "report filename soup =
     Inr (''--- Analysis of '' @ filename @ '' ---\<newline>'' @
          title_pass soup [] @
          ''\<newline>[Features / How it works]\<newline>'' @ features_pass soup [] @
          ''\<newline>[Pricing]\<newline>'' @ pricing_pass soup [] @
          ''\<newline>[Testimonials]\<newline>'' @ testimonials_pass soup [] @
          ''\<newline>[Footer]\<newline>'' @ footer_pass soup [] @
          ''\<newline>[Important Links]\<newline>'' @
          concat (map (\<lambda>a. link_line a @ ''\<newline>'')
            (filter important_link (filter anchor_with_href (descendants soup)))))"
proof -
  have 1: "title_pass soup out = out @ title_pass soup []" for out by (rule title_pass_append)
  have 2: "features_pass soup out = out @ features_pass soup []" for out by (rule features_pass_append)
  have 3: "pricing_pass soup out = out @ pricing_pass soup []" for out by (rule pricing_pass_append)
  have 4: "testimonials_pass soup out = out @ testimonials_pass soup []" for out
    by (rule testimonials_pass_append)
  have 5: "footer_pass soup out = out @ footer_pass soup []" for out by (rule footer_pass_append)
  show ?thesis
    unfolding report_def Let_def links_eq print_def
    by (subst 5, subst 4, subst 3, subst 2, subst 1) simp
qed

lemma pricing_cases:
  "pricing_pass soup [] =
     (case filter (section_or_div_with_id ''pricing'') (descendants soup) of
        [] \<Rightarrow> concat (map (\<lambda>l. l @ ''\<newline>'') (pricing_fallback_lines soup))
      | e # rest \<Rightarrow> newline_joined_text e @ ''\<newline>'')"
proof (cases "filter (section_or_div_with_id ''pricing'') (descendants soup)")
  case Nil
  then show ?thesis using pricing_eq2 [of soup "[]"] by simp
next
  case (Cons e rest)
  then show ?thesis using pricing_eq1 [of soup e rest "[]"] by simp
qed

lemma footer_cases:
  "footer_pass soup [] =
     (case filter (\<lambda>e. tag_name e = Some ''footer'') (descendants soup) of
        [] \<Rightarrow> concat (map (\<lambda>e. newline_joined_text e @ ''\<newline>'') (filter footer_div (descendants soup)))
      | e # rest \<Rightarrow> newline_joined_text e @ ''\<newline>'')"
proof (cases "filter (\<lambda>e. tag_name e = Some ''footer'') (descendants soup)")
  case Nil
  then show ?thesis using footer_eq2 [of soup "[]"] by simp
next
  case (Cons e rest)
  then show ?thesis using footer_eq1 [of soup e rest "[]"] by simp
qed

lemma after_complete_lines:
  assumes "complete_lines c"
  shows "\<exists>pre. x @ ''\<newline>'' @ c = pre @ ''\<newline>''"
proof (cases "c = []")
  case True
  then show ?thesis by simp
next
  case False
  with assms have "last c = CHR 0x0A" by (simp add: complete_lines_def)
  with False have "c = butlast c @ ''\<newline>''" by (metis append_butlast_last_id)
  then have "x @ ''\<newline>'' @ c = (x @ ''\<newline>'' @ butlast c) @ ''\<newline>''" by simp
  then show ?thesis by blast
qed

lemma blank_line_before_header:
  assumes "complete_lines c"
  shows "\<exists>pre. x @ ''\<newline>'' @ c @ ''\<newline>'' @ h @ post = pre @ ''\<newline>'' @ ''\<newline>'' @ h @ post"
proof -
  from assms obtain pre where "x @ ''\<newline>'' @ c = pre @ ''\<newline>''"
    using after_complete_lines by blast
  then have "(x @ ''\<newline>'' @ c) @ ''\<newline>'' @ h @ post = (pre @ ''\<newline>'') @ ''\<newline>'' @ h @ post"
    by simp
  then show ?thesis by (simp del: append_assoc add: append_assoc [symmetric]) 
qed

lemma layout_blank_lines:
  fixes T F P S G a h1 h2 h3 h4 h5 L :: string
  assumes "complete_lines T" and "complete_lines F" and "complete_lines P"
    and "complete_lines S" and "complete_lines G"
  defines "out \<equiv> a @ ''\<newline>'' @ T @ ''\<newline>'' @ h1 @ ''\<newline>'' @ F @ ''\<newline>'' @ h2 @ ''\<newline>'' @ P @ ''\<newline>'' @ h3 @ ''\<newline>'' @ S @ ''\<newline>'' @ h4 @ ''\<newline>'' @ G @ ''\<newline>'' @ h5 @ ''\<newline>'' @ L"
  shows "(\<exists>pre post. out = pre @ ''\<newline>'' @ ''\<newline>'' @ h1 @ ''\<newline>'' @ post) \<and>
         (\<exists>pre post. out = pre @ ''\<newline>'' @ ''\<newline>'' @ h2 @ ''\<newline>'' @ post) \<and>
         (\<exists>pre post. out = pre @ ''\<newline>'' @ ''\<newline>'' @ h3 @ ''\<newline>'' @ post) \<and>
         (\<exists>pre post. out = pre @ ''\<newline>'' @ ''\<newline>'' @ h4 @ ''\<newline>'' @ post) \<and>
         (\<exists>pre post. out = pre @ ''\<newline>'' @ ''\<newline>'' @ h5 @ ''\<newline>'' @ post)"
proof (intro conjI)
  obtain pre where "(a) @ ''\<newline>'' @ T @ ''\<newline>'' @ h1 @ (''\<newline>'' @ F @ ''\<newline>'' @ h2 @ ''\<newline>'' @ P @ ''\<newline>'' @ h3 @ ''\<newline>'' @ S @ ''\<newline>'' @ h4 @ ''\<newline>'' @ G @ ''\<newline>'' @ h5 @ ''\<newline>'' @ L)
      = pre @ ''\<newline>'' @ ''\<newline>'' @ h1 @ (''\<newline>'' @ F @ ''\<newline>'' @ h2 @ ''\<newline>'' @ P @ ''\<newline>'' @ h3 @ ''\<newline>'' @ S @ ''\<newline>'' @ h4 @ ''\<newline>'' @ G @ ''\<newline>'' @ h5 @ ''\<newline>'' @ L)"
    using blank_line_before_header [OF assms(1)] by blast
  then have "out = pre @ ''\<newline>'' @ ''\<newline>'' @ h1 @ ''\<newline>'' @ (F @ ''\<newline>'' @ h2 @ ''\<newline>'' @ P @ ''\<newline>'' @ h3 @ ''\<newline>'' @ S @ ''\<newline>'' @ h4 @ ''\<newline>'' @ G @ ''\<newline>'' @ h5 @ ''\<newline>'' @ L)"
    by (simp add: out_def)
  then show "\<exists>pre post. out = pre @ ''\<newline>'' @ ''\<newline>'' @ h1 @ ''\<newline>'' @ post"
    by blast
next
  obtain pre where "(a @ ''\<newline>'' @ T @ ''\<newline>'' @ h1) @ ''\<newline>'' @ F @ ''\<newline>'' @ h2 @ (''\<newline>'' @ P @ ''\<newline>'' @ h3 @ ''\<newline>'' @ S @ ''\<newline>'' @ h4 @ ''\<newline>'' @ G @ ''\<newline>'' @ h5 @ ''\<newline>'' @ L)
      = pre @ ''\<newline>'' @ ''\<newline>'' @ h2 @ (''\<newline>'' @ P @ ''\<newline>'' @ h3 @ ''\<newline>'' @ S @ ''\<newline>'' @ h4 @ ''\<newline>'' @ G @ ''\<newline>'' @ h5 @ ''\<newline>'' @ L)"
    using blank_line_before_header [OF assms(2)] by blast
  then have "out = pre @ ''\<newline>'' @ ''\<newline>'' @ h2 @ ''\<newline>'' @ (P @ ''\<newline>'' @ h3 @ ''\<newline>'' @ S @ ''\<newline>'' @ h4 @ ''\<newline>'' @ G @ ''\<newline>'' @ h5 @ ''\<newline>'' @ L)"
    by (simp add: out_def)
  then show "\<exists>pre post. out = pre @ ''\<newline>'' @ ''\<newline>'' @ h2 @ ''\<newline>'' @ post"
    by blast
next
  obtain pre where "(a @ ''\<newline>'' @ T @ ''\<newline>'' @ h1 @ ''\<newline>'' @ F @ ''\<newline>'' @ h2) @ ''\<newline>'' @ P @ ''\<newline>'' @ h3 @ (''\<newline>'' @ S @ ''\<newline>'' @ h4 @ ''\<newline>'' @ G @ ''\<newline>'' @ h5 @ ''\<newline>'' @ L)
      = pre @ ''\<newline>'' @ ''\<newline>'' @ h3 @ (''\<newline>'' @ S @ ''\<newline>'' @ h4 @ ''\<newline>'' @ G @ ''\<newline>'' @ h5 @ ''\<newline>'' @ L)"
    using blank_line_before_header [OF assms(3)] by blast
  then have "out = pre @ ''\<newline>'' @ ''\<newline>'' @ h3 @ ''\<newline>'' @ (S @ ''\<newline>'' @ h4 @ ''\<newline>'' @ G @ ''\<newline>'' @ h5 @ ''\<newline>'' @ L)"
    by (simp add: out_def)
  then show "\<exists>pre post. out = pre @ ''\<newline>'' @ ''\<newline>'' @ h3 @ ''\<newline>'' @ post"
    by blast
next
  obtain pre where "(a @ ''\<newline>'' @ T @ ''\<newline>'' @ h1 @ ''\<newline>'' @ F @ ''\<newline>'' @ h2 @ ''\<newline>'' @ P @ ''\<newline>'' @ h3) @ ''\<newline>'' @ S @ ''\<newline>'' @ h4 @ (''\<newline>'' @ G @ ''\<newline>'' @ h5 @ ''\<newline>'' @ L)
      = pre @ ''\<newline>'' @ ''\<newline>'' @ h4 @ (''\<newline>'' @ G @ ''\<newline>'' @ h5 @ ''\<newline>'' @ L)"
    using blank_line_before_header [OF assms(4)] by blast
  then have "out = pre @ ''\<newline>'' @ ''\<newline>'' @ h4 @ ''\<newline>'' @ (G @ ''\<newline>'' @ h5 @ ''\<newline>'' @ L)"
    by (simp add: out_def)
  then show "\<exists>pre post. out = pre @ ''\<newline>'' @ ''\<newline>'' @ h4 @ ''\<newline>'' @ post"
    by blast
next
  obtain pre where "(a @ ''\<newline>'' @ T @ ''\<newline>'' @ h1 @ ''\<newline>'' @ F @ ''\<newline>'' @ h2 @ ''\<newline>'' @ P @ ''\<newline>'' @ h3 @ ''\<newline>'' @ S @ ''\<newline>'' @ h4) @ ''\<newline>'' @ G @ ''\<newline>'' @ h5 @ (''\<newline>'' @ L)
      = pre @ ''\<newline>'' @ ''\<newline>'' @ h5 @ (''\<newline>'' @ L)"
    using blank_line_before_header [OF assms(5)] by blast
  then have "out = pre @ ''\<newline>'' @ ''\<newline>'' @ h5 @ ''\<newline>'' @ (L)"
    by (simp add: out_def)
  then show "\<exists>pre post. out = pre @ ''\<newline>'' @ ''\<newline>'' @ h5 @ ''\<newline>'' @ post"
    by blast
qed

lemma report_blank_lines:
  "(\<exists>pre post. report filename soup = Inr (pre @ ''\<newline>\<newline>[Features / How it works]\<newline>'' @ post)) \<and>
   (\<exists>pre post. report filename soup = Inr (pre @ ''\<newline>\<newline>[Pricing]\<newline>'' @ post)) \<and>
   (\<exists>pre post. report filename soup = Inr (pre @ ''\<newline>\<newline>[Testimonials]\<newline>'' @ post)) \<and>
   (\<exists>pre post. report filename soup = Inr (pre @ ''\<newline>\<newline>[Footer]\<newline>'' @ post)) \<and>
   (\<exists>pre post. report filename soup = Inr (pre @ ''\<newline>\<newline>[Important Links]\<newline>'' @ post))"
proof -
  define L where "L = concat (map (\<lambda>a. link_line a @ ''\<newline>'')
            (filter important_link (filter anchor_with_href (descendants soup))))"
  define out where "out = (''--- Analysis of '' @ filename @ '' ---'') @ ''\<newline>'' @ title_pass soup [] @
       ''\<newline>'' @ ''[Features / How it works]'' @ ''\<newline>'' @ features_pass soup [] @
       ''\<newline>'' @ ''[Pricing]'' @ ''\<newline>'' @ pricing_pass soup [] @
       ''\<newline>'' @ ''[Testimonials]'' @ ''\<newline>'' @ testimonials_pass soup [] @
       ''\<newline>'' @ ''[Footer]'' @ ''\<newline>'' @ footer_pass soup [] @
       ''\<newline>'' @ ''[Important Links]'' @ ''\<newline>'' @ L"
  have eq: "report filename soup = Inr out"
    by (simp add: report_eq L_def out_def)
  note lay = layout_blank_lines [OF title_complete features_complete pricing_complete
      testimonials_complete footer_complete,
      where a = "''--- Analysis of '' @ filename @ '' ---''"
        and ?h1.0 = "''[Features / How it works]''" and ?h2.0 = "''[Pricing]''"
        and ?h3.0 = "''[Testimonials]''" and ?h4.0 = "''[Footer]''"
        and ?h5.0 = "''[Important Links]''" and L = L, of soup soup soup soup soup,
      folded out_def]
  from lay obtain pre0 post0 where
    "out = pre0 @ ''\<newline>'' @ ''\<newline>'' @ ''[Features / How it works]'' @ ''\<newline>'' @ post0"
    by blast
  then have c0: "\<exists>pre post. report filename soup = Inr (pre @ ''\<newline>\<newline>[Features / How it works]\<newline>'' @ post)"
    unfolding eq by auto
  from lay obtain pre1 post1 where
    "out = pre1 @ ''\<newline>'' @ ''\<newline>'' @ ''[Pricing]'' @ ''\<newline>'' @ post1"
    by blast
  then have c1: "\<exists>pre post. report filename soup = Inr (pre @ ''\<newline>\<newline>[Pricing]\<newline>'' @ post)"
    unfolding eq by auto
  from lay obtain pre2 post2 where
    "out = pre2 @ ''\<newline>'' @ ''\<newline>'' @ ''[Testimonials]'' @ ''\<newline>'' @ post2"
    by blast
  then have c2: "\<exists>pre post. report filename soup = Inr (pre @ ''\<newline>\<newline>[Testimonials]\<newline>'' @ post)"
    unfolding eq by auto
  from lay obtain pre3 post3 where
    "out = pre3 @ ''\<newline>'' @ ''\<newline>'' @ ''[Footer]'' @ ''\<newline>'' @ post3"
    by blast
  then have c3: "\<exists>pre post. report filename soup = Inr (pre @ ''\<newline>\<newline>[Footer]\<newline>'' @ post)"
    unfolding eq by auto
  from lay obtain pre4 post4 where
    "out = pre4 @ ''\<newline>'' @ ''\<newline>'' @ ''[Important Links]'' @ ''\<newline>'' @ post4"
    by blast
  then have c4: "\<exists>pre post. report filename soup = Inr (pre @ ''\<newline>\<newline>[Important Links]\<newline>'' @ post)"
    unfolding eq by auto
  from c0 c1 c2 c3 c4 show ?thesis by blast
qed

section \<open>The claims\<close>

text \<open>
  Claim C1. The title line should show the text content of the \<^verbatim>\<open>title\<close> element, or
  \<^verbatim>\<open>No Title\<close> when there is none. The program takes \<^verbatim>\<open>.string\<close> of the element,
  which is \<^verbatim>\<open>None\<close> for a title without children (and for one with several): on a page
  whose \<^verbatim>\<open>title\<close> element is empty the line printed is \<^verbatim>\<open>Title: None\<close>.
\<close>

theorem empty_title_prints_None:
  "title_pass empty_title_page [] = ''Title: None\<newline>''"
  by code_simp

text \<open>
  Claim C2 as stated, with the newline separator also for the parents printed by the
  pricing fallback, fails on the example page: the paragraph with the prices is printed
  with its three trimmed runs joined by nothing.
\<close>

theorem text_joining_counterexample:
  "pricing_pass example_page [] = ''Only $5nowor $9\<newline>Only $5nowor $9\<newline>'' \<and>
   newline_joined_text example_p = ''Only $5\<newline>now\<newline>or $9'' \<and>
   pricing_pass example_page [] \<noteq>
     newline_joined_text example_p @ ''\<newline>'' @ newline_joined_text example_p @ ''\<newline>''"
  by code_simp

text \<open>
  Claim C2, as the program has it. Every block printed by the features, testimonials and
  footer passes and by the pricing pass for an id-marked element is the element's trimmed
  text runs joined by a newline; the parents printed by the pricing fallback, and the
  anchor texts of the links, are the trimmed runs joined by nothing. Every trimmed run is
  non-empty and stripped, and a block of either kind has no whitespace at its ends.
\<close>

theorem text_joining:
  "features_pass soup out =
     out @ concat (map (\<lambda>e. join ''\<newline>'' (trimmed_runs e) @ ''\<newline>'')
       (find_all soup (MatchList [''section'', ''div''])
          [(''id'', MatchList [''features'', ''how-it-works''])])) \<and>
   testimonials_pass soup out =
     out @ concat (map (\<lambda>e. join ''\<newline>'' (trimmed_runs e) @ ''\<newline>'')
       (find_all soup (MatchList [''section'', ''div''])
          [(''id'', MatchList [''testimonials'', ''success''])])) \<and>
   pricing_pass soup out =
     (case find_first soup (MatchList [''section'', ''div'']) [(''id'', MatchStr ''pricing'')] of
        Some e \<Rightarrow> out @ join ''\<newline>'' (trimmed_runs e) @ ''\<newline>''
      | None \<Rightarrow>
          out @ concat (map (\<lambda>(p, parent). concat (trimmed_runs parent) @ ''\<newline>'')
            (find_all_string soup (\<lambda>t. py_in ''$'' t)))) \<and>
   footer_pass soup out =
     (case find_first soup (MatchStr ''footer'') [] of
        Some e \<Rightarrow> out @ join ''\<newline>'' (trimmed_runs e) @ ''\<newline>''
      | None \<Rightarrow>
          out @ concat (map (\<lambda>e. join ''\<newline>'' (trimmed_runs e) @ ''\<newline>'')
            (find_all soup (MatchStr ''div'') [(''class'', MatchFun footer_class)]))) \<and>
   links_pass soup out =
     Inr (out @ concat (map (\<lambda>a. concat (trimmed_runs a) @ '': '' @ href_of a @ ''\<newline>'')
       (filter important_link (filter anchor_with_href (descendants soup))))) \<and>
   (\<forall>r\<in>set (trimmed_runs e). r \<noteq> [] \<and> strip r = r) \<and>
   strip (join ''\<newline>'' (trimmed_runs e)) = join ''\<newline>'' (trimmed_runs e) \<and>
   strip (concat (trimmed_runs e)) = concat (trimmed_runs e)"
proof (intro conjI)
  show "features_pass soup out =
     out @ concat (map (\<lambda>e. join ''\<newline>'' (trimmed_runs e) @ ''\<newline>'')
       (find_all soup (MatchList [''section'', ''div''])
          [(''id'', MatchList [''features'', ''how-it-works''])]))"
    by (simp add: features_pass_def fold_print get_text_strip)
  show "testimonials_pass soup out =
     out @ concat (map (\<lambda>e. join ''\<newline>'' (trimmed_runs e) @ ''\<newline>'')
       (find_all soup (MatchList [''section'', ''div''])
          [(''id'', MatchList [''testimonials'', ''success''])]))"
    by (simp add: testimonials_pass_def fold_print get_text_strip)
  show "pricing_pass soup out =
     (case find_first soup (MatchList [''section'', ''div'']) [(''id'', MatchStr ''pricing'')] of
        Some e \<Rightarrow> out @ join ''\<newline>'' (trimmed_runs e) @ ''\<newline>''
      | None \<Rightarrow>
          out @ concat (map (\<lambda>(p, parent). concat (trimmed_runs parent) @ ''\<newline>'')
            (find_all_string soup (\<lambda>t. py_in ''$'' t))))"
    by (simp add: pricing_pass_def fold_print print_def get_text_strip join_empty_sep
        case_prod_unfold split: option.split)
  show "footer_pass soup out =
     (case find_first soup (MatchStr ''footer'') [] of
        Some e \<Rightarrow> out @ join ''\<newline>'' (trimmed_runs e) @ ''\<newline>''
      | None \<Rightarrow>
          out @ concat (map (\<lambda>e. join ''\<newline>'' (trimmed_runs e) @ ''\<newline>'')
            (find_all soup (MatchStr ''div'') [(''class'', MatchFun footer_class)])))"
    by (simp add: footer_pass_def fold_print print_def get_text_strip split: option.split)
  show "links_pass soup out =
     Inr (out @ concat (map (\<lambda>a. concat (trimmed_runs a) @ '': '' @ href_of a @ ''\<newline>'')
       (filter important_link (filter anchor_with_href (descendants soup)))))"
    by (simp add: links_eq link_line_def stripped_runs_text_def)
  have runs: "\<forall>r\<in>set (trimmed_runs e). r \<noteq> [] \<and> is_trimmed r"
    using trimmed_runs_trimmed by blast
  then show "\<forall>r\<in>set (trimmed_runs e). r \<noteq> [] \<and> strip r = r"
    by (simp add: is_trimmed_iff)
  from runs have "is_trimmed (join ''\<newline>'' (trimmed_runs e))" by (rule join_trimmed)
  then show "strip (join ''\<newline>'' (trimmed_runs e)) = join ''\<newline>'' (trimmed_runs e)"
    by (rule strip_trimmed_id)
  from runs have "is_trimmed (join [] (trimmed_runs e))" by (rule join_trimmed)
  then show "strip (concat (trimmed_runs e)) = concat (trimmed_runs e)"
    by (simp add: join_empty_sep strip_trimmed_id)
qed

theorem text_joining_witness:
  "trimmed_runs example_p = [''Only $5'', ''now'', ''or $9''] \<and>
   strip ''Only $5'' = ''Only $5'' \<and> strip ''now'' = ''now'' \<and> strip ''or $9'' = ''or $9'' \<and>
   features_pass example_page [] = ''Hello\<newline>World\<newline>'' \<and>
   pricing_pass example_page [] = ''Only $5nowor $9\<newline>Only $5nowor $9\<newline>'' \<and>
   pricing_pass priced_page [] = ''$9/mo\<newline>''"
proof -
  note t = text_joining [of example_page "[]" example_p]
  note t' = text_joining [of priced_page "[]" example_p]
  have r: "trimmed_runs example_p = [''Only $5'', ''now'', ''or $9'']" by code_simp
  from t have "\<forall>r\<in>set (trimmed_runs example_p). r \<noteq> [] \<and> strip r = r" by blast
  then have "\<forall>r\<in>set [''Only $5'', ''now'', ''or $9'']. r \<noteq> [] \<and> strip r = r"
    unfolding r .
  then have a: "strip ''Only $5'' = ''Only $5'' \<and> strip ''now'' = ''now'' \<and> strip ''or $9'' = ''or $9''"
    by simp
  from t have "features_pass example_page [] =
     [] @ concat (map (\<lambda>e. join ''\<newline>'' (trimmed_runs e) @ ''\<newline>'')
       (find_all example_page (MatchList [''section'', ''div''])
          [(''id'', MatchList [''features'', ''how-it-works''])]))" by blast
  also have "\<dots> = ''Hello\<newline>World\<newline>''" by code_simp
  finally have f: "features_pass example_page [] = ''Hello\<newline>World\<newline>''" .
  from t have "pricing_pass example_page [] =
     (case find_first example_page (MatchList [''section'', ''div'']) [(''id'', MatchStr ''pricing'')] of
        Some e \<Rightarrow> [] @ join ''\<newline>'' (trimmed_runs e) @ ''\<newline>''
      | None \<Rightarrow>
          [] @ concat (map (\<lambda>(p, parent). concat (trimmed_runs parent) @ ''\<newline>'')
            (find_all_string example_page (\<lambda>t. py_in ''$'' t))))" by blast
  also have "\<dots> = ''Only $5nowor $9\<newline>Only $5nowor $9\<newline>''" by code_simp
  finally have p: "pricing_pass example_page [] = ''Only $5nowor $9\<newline>Only $5nowor $9\<newline>''" .
  from t' have "pricing_pass priced_page [] =
     (case find_first priced_page (MatchList [''section'', ''div'']) [(''id'', MatchStr ''pricing'')] of
        Some e \<Rightarrow> [] @ join ''\<newline>'' (trimmed_runs e) @ ''\<newline>''
      | None \<Rightarrow>
          [] @ concat (map (\<lambda>(p, parent). concat (trimmed_runs parent) @ ''\<newline>'')
            (find_all_string priced_page (\<lambda>t. py_in ''$'' t))))" by blast
  also have "\<dots> = ''$9/mo\<newline>''" by code_simp
  finally have p': "pricing_pass priced_page [] = ''$9/mo\<newline>''" .
  from r a f p p' show ?thesis by blast
qed






text \<open>
  Claim C5 as stated, with the keyword looked for in the trimmed visible text, fails on
  an anchor whose text is \<^verbatim>\<open>Sup\<close>, a blank and \<^verbatim>\<open>port\<close> in a nested element: neither
  its target nor its trimmed text contains a keyword, and its line is printed, with the
  text \<^verbatim>\<open>Support\<close>.
\<close>

theorem links_output_counterexample:
  "trimmed_text glued_anchor = ''Sup port'' \<and>
   href_of glued_anchor = ''/s'' \<and>
   \<not> has_keyword (href_of glued_anchor) \<and>
   \<not> has_keyword (trimmed_text glued_anchor) \<and>
   links_pass (BeautifulSoup [glued_anchor]) [] = Inr ''Support: /s\<newline>''"
  by code_simp

text \<open>
  Claim C5, as the program has it. The links pass never fails and prints, in document
  order, the line \<open>text: href\<close> for exactly those \<^verbatim>\<open>a\<close> elements with an \<^verbatim>\<open>href\<close>
  attribute (an empty value included) whose \<^verbatim>\<open>href\<close> or text contains, in lower case,
  one of the seven keywords, where the text, tested and printed, is the anchor's text runs,
  each stripped, the empty ones left out, joined by nothing; the text may be empty, and
  anchors without \<^verbatim>\<open>href\<close> are not looked at.
\<close>

theorem links_output:
  "links_pass soup out =
     Inr (out @ concat (map (\<lambda>a. link_line a @ ''\<newline>'')
       (filter important_link (filter anchor_with_href (descendants soup)))))"
  by (rule links_eq)

theorem links_output_witness:
  "links_pass links_page [] =
     Inr ''Policy: /Docs/PRIVACY.html\<newline>ABOUTUs: /x\<newline>Tech Support: \<newline>Support: /s\<newline>: /terms\<newline>''"
proof -
  have "links_pass links_page [] =
     Inr ([] @ concat (map (\<lambda>a. link_line a @ ''\<newline>'')
       (filter important_link (filter anchor_with_href (descendants links_page)))))"
    by (rule links_output)
  also have "\<dots> = Inr ''Policy: /Docs/PRIVACY.html\<newline>ABOUTUs: /x\<newline>Tech Support: \<newline>Support: /s\<newline>: /terms\<newline>''"
    by code_simp
  finally show ?thesis .
qed



text \<open>
  Claim C7. In the pricing fallback, an element of the document with two child text
  nodes that contain \<^verbatim>\<open>$\<close> has its trimmed text printed at least twice: the fallback
  prints one line for every such text node of the document, with no deduplication.
\<close>

theorem pricing_fallback_no_dedup:
  assumes "filter (section_or_div_with_id ''pricing'') (descendants soup) = []"
    and "p = soup \<or> p \<in> set (descendants soup)"
    and "2 \<le> length (filter dollar_string (children p))"
  shows "pricing_pass soup out = out @ concat (map (\<lambda>l. l @ ''\<newline>'') (pricing_fallback_lines soup)) \<and>
         2 \<le> count_list (pricing_fallback_lines soup) (stripped_runs_text p) \<and>
         length (pricing_fallback_lines soup) = length (filter dollar_string (descendants soup))"
proof (intro conjI)
  from assms(1) show "pricing_pass soup out =
      out @ concat (map (\<lambda>l. l @ ''\<newline>'') (pricing_fallback_lines soup))"
    by (rule pricing_eq2)
  from assms(2) have "length (filter dollar_string (children p))
      \<le> count_list (pricing_fallback_lines soup) (stripped_runs_text p)"
    by (rule fallback_count)
  with assms(3) show "2 \<le> count_list (pricing_fallback_lines soup) (stripped_runs_text p)" by simp
  show "length (pricing_fallback_lines soup) = length (filter dollar_string (descendants soup))"
    by (rule fallback_length)
qed

theorem pricing_fallback_no_dedup_witness:
  "filter (section_or_div_with_id ''pricing'') (descendants example_page) = [] \<and>
   example_p \<in> set (descendants example_page) \<and>
   2 \<le> length (filter dollar_string (children example_p)) \<and>
   stripped_runs_text example_p = ''Only $5nowor $9'' \<and>
   pricing_pass example_page [] = ''Only $5nowor $9\<newline>Only $5nowor $9\<newline>'' \<and>
   2 \<le> count_list (pricing_fallback_lines example_page) ''Only $5nowor $9''"
proof -
  have h1: "filter (section_or_div_with_id ''pricing'') (descendants example_page) = []"
    by code_simp
  have h2: "example_p \<in> set (descendants example_page)" by code_simp
  have h3: "2 \<le> length (filter dollar_string (children example_p))" by code_simp
  have t: "stripped_runs_text example_p = ''Only $5nowor $9''" by code_simp
  from h2 have h2': "example_p = example_page \<or> example_p \<in> set (descendants example_page)" ..
  note n = pricing_fallback_no_dedup [OF h1 h2' h3, of "[]"]
  from n have "pricing_pass example_page [] =
      [] @ concat (map (\<lambda>l. l @ ''\<newline>'') (pricing_fallback_lines example_page))" by blast
  also have "\<dots> = ''Only $5nowor $9\<newline>Only $5nowor $9\<newline>''" by code_simp
  finally have p: "pricing_pass example_page [] = ''Only $5nowor $9\<newline>Only $5nowor $9\<newline>''" .
  from n have "2 \<le> count_list (pricing_fallback_lines example_page) (stripped_runs_text example_p)"
    by blast
  then have c: "2 \<le> count_list (pricing_fallback_lines example_page) ''Only $5nowor $9''"
    unfolding t .
  from h1 h2 h3 t p c show ?thesis by blast
qed

text \<open>
  Claim C8 as stated, with a blank line after each header, fails on the example page: the
  line after the features header is the first line of the features block.
\<close>

theorem header_blank_line_counterexample:
  "report ''page.html'' example_page =
     Inr ''--- Analysis of page.html ---\<newline>Title: Acme\<newline>\<newline>[Features / How it works]\<newline>Hello\<newline>World\<newline>\<newline>[Pricing]\<newline>Only $5nowor $9\<newline>Only $5nowor $9\<newline>\<newline>[Testimonials]\<newline>\<newline>[Footer]\<newline>Contact us\<newline>\<newline>[Important Links]\<newline>Policy: /privacy-policy\<newline>'' \<and>
   \<not> blank_line_follows ''[Features / How it works]''
     (split_lines ''--- Analysis of page.html ---\<newline>Title: Acme\<newline>\<newline>[Features / How it works]\<newline>Hello\<newline>World\<newline>\<newline>[Pricing]\<newline>Only $5nowor $9\<newline>Only $5nowor $9\<newline>\<newline>[Testimonials]\<newline>\<newline>[Footer]\<newline>Contact us\<newline>\<newline>[Important Links]\<newline>Policy: /privacy-policy\<newline>'')"
  by code_simp

text \<open>
  Claim C8, as the program has it. The report is, in this order: the analysis header
  line; the text \<^verbatim>\<open>Title: \<close>, the title value and a newline; and for each of the five
  bracketed headers an empty line, the header line with exactly its text, and directly
  after the header line the blocks of that section, each ended by a newline. So an empty
  line comes before every bracketed header, and what comes after a header line is the
  first block of its section, or, for a section without blocks, the empty line before the
  next header or the end of the report.
\<close>

theorem report_layout:
  "report filename soup =
     Inr (''--- Analysis of '' @ filename @ '' ---\<newline>'' @
          ''Title: '' @
          (case filter (\<lambda>e. tag_name e = Some ''title'') (descendants soup) of
             [] \<Rightarrow> ''No Title''
           | t # ts \<Rightarrow> (case string_of t of None \<Rightarrow> ''None'' | Some s \<Rightarrow> s)) @ ''\<newline>'' @
          ''\<newline>[Features / How it works]\<newline>'' @
          concat (map (\<lambda>e. newline_joined_text e @ ''\<newline>'')
            (filter (\<lambda>e. section_or_div_with_id ''features'' e \<or> section_or_div_with_id ''how-it-works'' e)
               (descendants soup))) @
          ''\<newline>[Pricing]\<newline>'' @
          (case filter (section_or_div_with_id ''pricing'') (descendants soup) of
             [] \<Rightarrow> concat (map (\<lambda>l. l @ ''\<newline>'') (pricing_fallback_lines soup))
           | e # rest \<Rightarrow> newline_joined_text e @ ''\<newline>'') @
          ''\<newline>[Testimonials]\<newline>'' @
          concat (map (\<lambda>e. newline_joined_text e @ ''\<newline>'')
            (filter (\<lambda>e. section_or_div_with_id ''testimonials'' e \<or> section_or_div_with_id ''success'' e)
               (descendants soup))) @
          ''\<newline>[Footer]\<newline>'' @
          (case filter (\<lambda>e. tag_name e = Some ''footer'') (descendants soup) of
             [] \<Rightarrow> concat (map (\<lambda>e. newline_joined_text e @ ''\<newline>'') (filter footer_div (descendants soup)))
           | e # rest \<Rightarrow> newline_joined_text e @ ''\<newline>'') @
          ''\<newline>[Important Links]\<newline>'' @
          concat (map (\<lambda>a. link_line a @ ''\<newline>'')
            (filter important_link (filter anchor_with_href (descendants soup))))) \<and>
   (\<exists>pre post. report filename soup = Inr (pre @ ''\<newline>\<newline>[Features / How it works]\<newline>'' @ post)) \<and>
   (\<exists>pre post. report filename soup = Inr (pre @ ''\<newline>\<newline>[Pricing]\<newline>'' @ post)) \<and>
   (\<exists>pre post. report filename soup = Inr (pre @ ''\<newline>\<newline>[Testimonials]\<newline>'' @ post)) \<and>
   (\<exists>pre post. report filename soup = Inr (pre @ ''\<newline>\<newline>[Footer]\<newline>'' @ post)) \<and>
   (\<exists>pre post. report filename soup = Inr (pre @ ''\<newline>\<newline>[Important Links]\<newline>'' @ post))"
proof -
  have "report filename soup =
     Inr (''--- Analysis of '' @ filename @ '' ---\<newline>'' @
          ''Title: '' @
          (case filter (\<lambda>e. tag_name e = Some ''title'') (descendants soup) of
             [] \<Rightarrow> ''No Title''
           | t # ts \<Rightarrow> (case string_of t of None \<Rightarrow> ''None'' | Some s \<Rightarrow> s)) @ ''\<newline>'' @
          ''\<newline>[Features / How it works]\<newline>'' @
          concat (map (\<lambda>e. newline_joined_text e @ ''\<newline>'')
            (filter (\<lambda>e. section_or_div_with_id ''features'' e \<or> section_or_div_with_id ''how-it-works'' e)
               (descendants soup))) @
          ''\<newline>[Pricing]\<newline>'' @
          (case filter (section_or_div_with_id ''pricing'') (descendants soup) of
             [] \<Rightarrow> concat (map (\<lambda>l. l @ ''\<newline>'') (pricing_fallback_lines soup))
           | e # rest \<Rightarrow> newline_joined_text e @ ''\<newline>'') @
          ''\<newline>[Testimonials]\<newline>'' @
          concat (map (\<lambda>e. newline_joined_text e @ ''\<newline>'')
            (filter (\<lambda>e. section_or_div_with_id ''testimonials'' e \<or> section_or_div_with_id ''success'' e)
               (descendants soup))) @
          ''\<newline>[Footer]\<newline>'' @
          (case filter (\<lambda>e. tag_name e = Some ''footer'') (descendants soup) of
             [] \<Rightarrow> concat (map (\<lambda>e. newline_joined_text e @ ''\<newline>'') (filter footer_div (descendants soup)))
           | e # rest \<Rightarrow> newline_joined_text e @ ''\<newline>'') @
          ''\<newline>[Important Links]\<newline>'' @
          concat (map (\<lambda>a. link_line a @ ''\<newline>'')
            (filter important_link (filter anchor_with_href (descendants soup)))))"
    unfolding report_eq
    by (simp add: title_pass_eq [of soup "[]"] features_eq [of soup "[]"] testimonials_eq [of soup "[]"]
        pricing_cases footer_cases)
  with report_blank_lines show ?thesis by blast
qed

theorem report_layout_witness:
  "report ''page.html'' example_page =
     Inr ''--- Analysis of page.html ---\<newline>Title: Acme\<newline>\<newline>[Features / How it works]\<newline>Hello\<newline>World\<newline>\<newline>[Pricing]\<newline>Only $5nowor $9\<newline>Only $5nowor $9\<newline>\<newline>[Testimonials]\<newline>\<newline>[Footer]\<newline>Contact us\<newline>\<newline>[Important Links]\<newline>Policy: /privacy-policy\<newline>''"
proof -
  from report_layout [of "''page.html''" example_page]
  have "report ''page.html'' example_page =
     Inr (''--- Analysis of '' @ ''page.html'' @ '' ---\<newline>'' @
          ''Title: '' @
          (case filter (\<lambda>e. tag_name e = Some ''title'') (descendants example_page) of
             [] \<Rightarrow> ''No Title''
           | t # ts \<Rightarrow> (case string_of t of None \<Rightarrow> ''None'' | Some s \<Rightarrow> s)) @ ''\<newline>'' @
          ''\<newline>[Features / How it works]\<newline>'' @
          concat (map (\<lambda>e. newline_joined_text e @ ''\<newline>'')
            (filter (\<lambda>e. section_or_div_with_id ''features'' e \<or> section_or_div_with_id ''how-it-works'' e)
               (descendants example_page))) @
          ''\<newline>[Pricing]\<newline>'' @
          (case filter (section_or_div_with_id ''pricing'') (descendants example_page) of
             [] \<Rightarrow> concat (map (\<lambda>l. l @ ''\<newline>'') (pricing_fallback_lines example_page))
           | e # rest \<Rightarrow> newline_joined_text e @ ''\<newline>'') @
          ''\<newline>[Testimonials]\<newline>'' @
          concat (map (\<lambda>e. newline_joined_text e @ ''\<newline>'')
            (filter (\<lambda>e. section_or_div_with_id ''testimonials'' e \<or> section_or_div_with_id ''success'' e)
               (descendants example_page))) @
          ''\<newline>[Footer]\<newline>'' @
          (case filter (\<lambda>e. tag_name e = Some ''footer'') (descendants example_page) of
             [] \<Rightarrow> concat (map (\<lambda>e. newline_joined_text e @ ''\<newline>'') (filter footer_div (descendants example_page)))
           | e # rest \<Rightarrow> newline_joined_text e @ ''\<newline>'') @
          ''\<newline>[Important Links]\<newline>'' @
          concat (map (\<lambda>a. link_line a @ ''\<newline>'')
            (filter important_link (filter anchor_with_href (descendants example_page)))))"
    by blast
  also have "\<dots> = Inr ''--- Analysis of page.html ---\<newline>Title: Acme\<newline>\<newline>[Features / How it works]\<newline>Hello\<newline>World\<newline>\<newline>[Pricing]\<newline>Only $5nowor $9\<newline>Only $5nowor $9\<newline>\<newline>[Testimonials]\<newline>\<newline>[Footer]\<newline>Contact us\<newline>\<newline>[Important Links]\<newline>Policy: /privacy-policy\<newline>''"
    by code_simp
  finally show ?thesis .
qed

text \<open>
  Claim C10. With more than one command-line argument the program behaves as with the
  first argument alone: it analyses the file named by the first argument and ignores
  the others.
\<close>

theorem main_ignores_extra_arguments:
  "main read_file html_parser (program # filename # more) = main read_file html_parser [program, filename] \<and>
   main read_file html_parser (program # filename # more) = parse_file read_file html_parser filename"
  by (simp add: main_def)

theorem main_ignores_extra_arguments_witness:
  "main example_read_file example_parser [''parse_lazyapply.py'', ''page.html'', ''other.html'', ''-v'']
     = main example_read_file example_parser [''parse_lazyapply.py'', ''page.html'']"
  using main_ignores_extra_arguments
    [of example_read_file example_parser "''parse_lazyapply.py''" "''page.html''" "[''other.html'', ''-v'']"]
  by blast

end
